theory Spec2Isabelle
  imports
    Main
    "HOL-Library.AList"
    "HOL-Library.Char_ord"
    "HOL-Library.List_Lexorder"
    "HOL-Library.Product_Lexorder"
    "HOL-Library.Sublist"
begin

section \<open>Strings\<close>

text \<open>
  A Python string is modelled as a \<^typ>\<open>string\<close>, a list of characters, and strings are
  compared character by character (the orders of \<open>Char_ord\<close> and \<open>List_Lexorder\<close>), which
  is how Python compares \<open>str\<close> values. No property below depends on which characters
  there are.

  The methods \<open>str.lower\<close> and \<open>str.capitalize\<close> belong to Python, not to the program.
  They are parameters of the model, called \<open>lower\<close> and \<open>capitalize\<close>: every function that
  calls one of them, itself or through a function it calls, takes it as an argument, and
  the properties hold for every such function unless they say what they need of it.
\<close>

type_synonym str_method = "string \<Rightarrow> string"

text \<open>
  What the properties of the full-match search need of \<open>lower\<close>, and what \<open>str.lower\<close>
  gives: every character of a lower-cased string is left alone by \<open>lower\<close>, and a string
  of characters that \<open>lower\<close> leaves alone is left alone.
\<close>

definition lower_output_fixed :: "str_method \<Rightarrow> bool" where
  "lower_output_fixed lower = (\<forall>s. list_all (\<lambda>c. lower [c] = [c]) (lower s))"

definition lower_keeps_fixed :: "str_method \<Rightarrow> bool" where
  "lower_keeps_fixed lower = (\<forall>s. list_all (\<lambda>c. lower [c] = [c]) s \<longrightarrow> lower s = s)"

text \<open>
  On ASCII text the two methods are the functions below; the examples are ASCII text and
  are evaluated with them.
\<close>

definition ascii_lower_char :: "char \<Rightarrow> char" where
  "ascii_lower_char c =
     (let n = (of_char c :: nat) in if 65 \<le> n \<and> n \<le> 90 then char_of (n + 32) else c)"

definition ascii_upper_char :: "char \<Rightarrow> char" where
  "ascii_upper_char c =
     (let n = (of_char c :: nat) in if 97 \<le> n \<and> n \<le> 122 then char_of (n - 32) else c)"

definition ascii_lower :: str_method where
  "ascii_lower s = map ascii_lower_char s"

fun ascii_capitalize :: str_method where
  "ascii_capitalize [] = []"
| "ascii_capitalize (c # cs) = ascii_upper_char c # ascii_lower cs"

text \<open>\<open>sep.join(ws)\<close> for the separator \<open>' '\<close>.\<close>

fun join_space :: "string list \<Rightarrow> string" where
  "join_space [] = []"
| "join_space [w] = w"
| "join_space (w # ws) = w @ '' '' @ join_space ws"

section \<open>Counters\<close>

text \<open>
  A \<open>collections.Counter\<close> is a dictionary from characters to integers. It is modelled as
  an association list in insertion order; Python's dictionaries keep their keys distinct.
  Assigning to a key that is present replaces its value in place, assigning to a new key
  appends it (\<^const>\<open>AList.update\<close>), and \<open>del\<close> removes the key (\<^const>\<open>AList.delete\<close>).
\<close>

type_synonym counter = "(char \<times> int) list"

definition keys :: "counter \<Rightarrow> char list" where
  "keys m = map fst m"

text \<open>\<open>c in m\<close>.\<close>

definition contains :: "counter \<Rightarrow> char \<Rightarrow> bool" where
  "contains m c = (c \<in> set (keys m))"

text \<open>
  \<open>m[c]\<close> on a Counter: a missing key reads as \<open>0\<close> and is not inserted. \<open>m.get(c, 0)\<close>
  gives the same value.
\<close>

definition getitem :: "counter \<Rightarrow> char \<Rightarrow> int" where
  "getitem m c = (case map_of m c of None \<Rightarrow> 0 | Some n \<Rightarrow> n)"

text \<open>\<open>Counter(s)\<close>: every character of \<open>s\<close> in turn gets its count raised by one.\<close>

definition Counter :: "string \<Rightarrow> counter" where
  "Counter s = fold (\<lambda>c m. AList.update c (getitem m c + 1) m) s []"

text \<open>\<open>m.update(other)\<close> on Counters adds the counts of \<open>other\<close> to those of \<open>m\<close>.\<close>

definition counter_update :: "counter \<Rightarrow> counter \<Rightarrow> counter" where
  "counter_update m other = fold (\<lambda>(c, n) m. AList.update c (n + getitem m c) m) other m"

text \<open>\<open>sum(m.values())\<close>.\<close>

definition sum_values :: "counter \<Rightarrow> int" where
  "sum_values m = sum_list (map snd m)"

section \<open>Subtracting a word\<close>

datatype error = ValueError string

definition uses_more_message :: "string \<Rightarrow> char \<Rightarrow> string" where
  "uses_more_message word c =
     ''Word '' @ [CHR 0x27] @ word @ [CHR 0x27] @ '' uses more '' @ [CHR 0x27, c, CHR 0x27]
       @ '' than available''"

text \<open>
  One round of the loop of \<open>subtract_letters\<close>, on the Counter that \<open>remaining\<close> refers to:
  the Counter after the round, and the error when the round raises.
  \<^verbatim>\<open>
        if char in remaining:
            remaining[char] -= word_count[char]
            if remaining[char] <= 0:
                del remaining[char]
            if remaining[char] < 0:
                raise ValueError(f"Word '{word}' uses more '{char}' than available")
  \<close>
\<close>

definition subtract_body :: "string \<Rightarrow> counter \<Rightarrow> char \<Rightarrow> counter \<Rightarrow> error option \<times> counter" where
  "subtract_body word word_count c remaining =
     (if contains remaining c then
        let r1 = AList.update c (getitem remaining c - getitem word_count c) remaining;
            r2 = (if getitem r1 c \<le> 0 then AList.delete c r1 else r1)
        in (if getitem r2 c < 0 then Some (ValueError (uses_more_message word c)) else None, r2)
      else (None, remaining))"

fun subtract_loop :: "string \<Rightarrow> counter \<Rightarrow> char list \<Rightarrow> counter \<Rightarrow> error + counter" where
  "subtract_loop word word_count [] remaining = Inr remaining"
| "subtract_loop word word_count (c # cs) remaining =
     (case subtract_body word word_count c remaining of
        (Some e, _) \<Rightarrow> Inl e
      | (None, remaining') \<Rightarrow> subtract_loop word word_count cs remaining')"

text \<open>
  \<open>subtract_letters\<close> on values: the Counter it returns, or the error it raises. The copy
  of \<open>letter_count\<close> is the same value; the version on a store of objects follows below.
\<close>

definition subtract_letters :: "str_method \<Rightarrow> counter \<Rightarrow> string \<Rightarrow> error + counter" where
  "subtract_letters lower letter_count word =
     (let word_count = Counter (lower word);
          remaining = letter_count
      in subtract_loop word word_count (keys word_count) remaining)"

subsection \<open>The same function on a store of objects\<close>

text \<open>
  To say what happens to the caller's Counter, the Counters live in a store (a list of
  objects, a reference is an index), \<open>copy\<close> allocates a new object, and the loop writes
  to the object \<open>remaining\<close> refers to.
\<close>

type_synonym store = "counter list"

definition counter_copy :: "nat \<Rightarrow> store \<Rightarrow> nat \<times> store" where
  "counter_copy r h = (length h, h @ [h ! r])"

fun subtract_loop_st :: "string \<Rightarrow> counter \<Rightarrow> nat \<Rightarrow> char list \<Rightarrow> store \<Rightarrow> (error + unit) \<times> store" where
  "subtract_loop_st word word_count remaining [] h = (Inr (), h)"
| "subtract_loop_st word word_count remaining (c # cs) h =
     (case subtract_body word word_count c (h ! remaining) of
        (Some e, m) \<Rightarrow> (Inl e, h[remaining := m])
      | (None, m) \<Rightarrow> subtract_loop_st word word_count remaining cs (h[remaining := m]))"

definition subtract_letters_st ::
  "str_method \<Rightarrow> nat \<Rightarrow> string \<Rightarrow> store \<Rightarrow> (error + nat) \<times> store" where
  "subtract_letters_st lower letter_count word h =
     (let word_count = Counter (lower word);
          (remaining, h1) = counter_copy letter_count h
      in case subtract_loop_st word word_count remaining (keys word_count) h1 of
           (Inl e, h2) \<Rightarrow> (Inl e, h2)
         | (Inr _, h2) \<Rightarrow> (Inr remaining, h2))"

section \<open>Checking a word against a Counter\<close>

text \<open>
  \<^verbatim>\<open>
    word_count = Counter(word)
    return all(word_count[char] <= letters_count.get(char, 0) for char in word_count)
  \<close>
\<close>

definition is_valid_anagram :: "counter \<Rightarrow> string \<Rightarrow> bool" where
  "is_valid_anagram letters_count word =
     (let word_count = Counter word
      in list_all (\<lambda>c. getitem word_count c \<le> getitem letters_count c) (keys word_count))"

text \<open>On the store: every round of \<open>all\<close> reads the object and hands the store on.\<close>

fun all_covered_st :: "counter \<Rightarrow> nat \<Rightarrow> char list \<Rightarrow> store \<Rightarrow> bool \<times> store" where
  "all_covered_st word_count letters_count [] h = (True, h)"
| "all_covered_st word_count letters_count (c # cs) h =
     (if getitem word_count c \<le> getitem (h ! letters_count) c
      then all_covered_st word_count letters_count cs h
      else (False, h))"

definition is_valid_anagram_st :: "nat \<Rightarrow> string \<Rightarrow> store \<Rightarrow> bool \<times> store" where
  "is_valid_anagram_st letters_count word h =
     (let word_count = Counter word
      in all_covered_st word_count letters_count (keys word_count) h)"

section \<open>Finding the anagrams\<close>

text \<open>
  The loop over \<open>exclude_words\<close>: the error of the first subtraction that raises, if any,
  and \<open>letters_count\<close> as it is then (the assignment of the failing round has not happened).
\<close>

fun exclude_loop :: "str_method \<Rightarrow> string list \<Rightarrow> counter \<Rightarrow> error option \<times> counter" where
  "exclude_loop lower [] letters_count = (None, letters_count)"
| "exclude_loop lower (word # ws) letters_count =
     (case subtract_letters lower letters_count word of
        Inl e \<Rightarrow> (Some e, letters_count)
      | Inr m \<Rightarrow> exclude_loop lower ws m)"

text \<open>
  The loop over \<open>word_list\<close> and the final \<open>sorted\<close>. Python's \<open>sorted\<close> is a stable sort on
  the key, a pair compared lexicographically; so is \<^const>\<open>sort_key\<close>.
\<close>

definition match_words :: "counter \<Rightarrow> string list \<Rightarrow> int \<Rightarrow> string list" where
  "match_words letters_count word_list min_length =
     sort_key (\<lambda>x. (- int (length x), x))
       (filter (\<lambda>word. int (length word) \<le> sum_values letters_count \<and>
                       int (length word) \<ge> min_length \<and>
                       is_valid_anagram letters_count word) word_list)"

text \<open>
  \<open>word_list\<close> is a Python set: the list is its elements in the order the loop meets them.
  \<open>exclude_words\<close> is \<open>None\<close> or a list. What \<open>print\<close> writes is left out.
\<close>

definition find_anagrams ::
  "str_method \<Rightarrow> string \<Rightarrow> string list \<Rightarrow> int \<Rightarrow> string list option \<Rightarrow> string list \<times> counter" where
  "find_anagrams lower letters word_list min_length exclude_words =
     (let letters' = lower (filter (\<lambda>c. c \<noteq> CHR '' '') letters);
          letters_count = Counter letters'
      in case (case exclude_words of
                 None \<Rightarrow> (None, letters_count)
               | Some ws \<Rightarrow> if ws = [] then (None, letters_count)
                           else exclude_loop lower ws letters_count) of
           (Some e, letters_count') \<Rightarrow> ([], letters_count')
         | (None, letters_count') \<Rightarrow> (match_words letters_count' word_list min_length, letters_count'))"

section \<open>Composing a sentence\<close>

text \<open>
  The truth value of \<open>result\<close>, which is \<open>None\<close> or a list: only a list with an element
  counts as true.
\<close>

fun truthy :: "string list option \<Rightarrow> bool" where
  "truthy None = False"
| "truthy (Some ws) = (ws \<noteq> [])"

text \<open>
  The recursive search \<open>find_full_match\<close>. Its loop runs over \<open>enumerate(words)\<close> and
  recurses on \<open>words[i+1:]\<close>, the words after the current one: \<open>full_match_loop\<close> is the
  loop from the current word on, so that the tail of its list is that slice. An error
  raised by \<open>subtract_letters\<close> is not caught here and ends the search.
\<close>

fun find_full_match ::
    "str_method \<Rightarrow> string list \<Rightarrow> string list \<Rightarrow> counter \<Rightarrow> error + string list option"
  and full_match_loop ::
    "str_method \<Rightarrow> string list \<Rightarrow> string list \<Rightarrow> counter \<Rightarrow> error + string list option"
where
  "find_full_match lower words current_words remaining =
     (if remaining = [] \<and> current_words \<noteq> [] then Inr (Some current_words)
      else if words = [] then Inr None
      else full_match_loop lower words current_words remaining)"
| "full_match_loop lower [] current_words remaining = Inr None"
| "full_match_loop lower (word # rest) current_words remaining =
     (let word_count = Counter word
      in if list_all (\<lambda>c. getitem word_count c \<le> getitem remaining c) (keys word_count) then
           (case subtract_letters lower remaining word of
              Inl e \<Rightarrow> Inl e
            | Inr new_remaining \<Rightarrow>
                (case find_full_match lower rest (current_words @ [word]) new_remaining of
                   Inl e \<Rightarrow> Inl e
                 | Inr result \<Rightarrow>
                     if truthy result then Inr result
                     else full_match_loop lower rest current_words remaining))
         else full_match_loop lower rest current_words remaining)"

text \<open>
  The loop of the partial mode, with its \<open>break\<close>:
  \<^verbatim>\<open>
        for word in available_words:
            word_count = Counter(word)
            if all((used_letters[char] + word_count[char]) <= remaining_letters.get(char, 0)
                   for char in word_count):
                sentence_words.append(word)
                used_letters.update(word_count)
            if len(sentence_words) >= 3:
                break
  \<close>
\<close>

fun partial_loop :: "string list \<Rightarrow> string list \<Rightarrow> counter \<Rightarrow> counter \<Rightarrow> string list" where
  "partial_loop [] sentence_words used_letters remaining_letters = sentence_words"
| "partial_loop (word # rest) sentence_words used_letters remaining_letters =
     (let word_count = Counter word;
          (sentence_words', used_letters') =
            (if list_all (\<lambda>c. getitem used_letters c + getitem word_count c
                                \<le> getitem remaining_letters c) (keys word_count)
             then (sentence_words @ [word], counter_update used_letters word_count)
             else (sentence_words, used_letters))
      in if length sentence_words' \<ge> 3 then sentence_words'
         else partial_loop rest sentence_words' used_letters' remaining_letters)"

text \<open>The end of \<open>generate_sentence\<close>, from \<open>if not sentence_words\<close> on.\<close>

definition construct_sentence :: "str_method \<Rightarrow> string list \<Rightarrow> string" where
  "construct_sentence capitalize sentence_words =
     (if sentence_words = [] then ''No sentence possible.''
      else if length sentence_words = 1 then capitalize (sentence_words ! 0) @ ''.''
      else if length sentence_words = 2 then
        capitalize (sentence_words ! 0) @ '' '' @ sentence_words ! 1 @ ''.''
      else capitalize (sentence_words ! 0) @ '' '' @ join_space (drop 1 sentence_words) @ ''.'')"

text \<open>
  \<open>sorted(anagrams, key=len, reverse=True)\<close> is stable too: words of equal length keep
  their order, longer words come first.
\<close>

definition available_words :: "string list \<Rightarrow> string list" where
  "available_words anagrams = sort_key (\<lambda>w. - int (length w)) anagrams"

definition generate_sentence ::
  "str_method \<Rightarrow> str_method \<Rightarrow> string list \<Rightarrow> counter \<Rightarrow> bool \<Rightarrow> error + string" where
  "generate_sentence lower capitalize anagrams remaining_letters full_match =
     (if anagrams = [] then Inr ''No sentence possible.''
      else if full_match then
        (let target_count = remaining_letters
         in case find_full_match lower (available_words anagrams) [] target_count of
              Inl e \<Rightarrow> Inl e
            | Inr result \<Rightarrow>
                if truthy result then Inr (construct_sentence capitalize (the result))
                else Inr ''No full-match sentence possible.'')
      else Inr (construct_sentence capitalize
                  (partial_loop (available_words anagrams) [] [] remaining_letters)))"

section \<open>Notions the properties are stated with\<close>

text \<open>How often the character \<open>c\<close> occurs in the words \<open>ws\<close> together.\<close>

definition letters_in :: "string list \<Rightarrow> char \<Rightarrow> int" where
  "letters_in ws c = sum_list (map (\<lambda>w. int (count_list w c)) ws)"

text \<open>
  A letter multiset as the program builds it: a Counter of lower-cased text holds
  characters that \<open>lower\<close> leaves alone, each with a positive count.
\<close>

definition lowercase_keys :: "str_method \<Rightarrow> counter \<Rightarrow> bool" where
  "lowercase_keys lower m = list_all (\<lambda>c. lower [c] = [c]) (keys m)"

definition positive_counts :: "counter \<Rightarrow> bool" where
  "positive_counts m = list_all (\<lambda>n. 0 < n) (map snd m)"

text \<open>
  The word \<open>word\<close> still fits beside the words \<open>accepted\<close>: no character is then used
  more often than \<open>remaining\<close> has it.
\<close>

definition fits :: "counter \<Rightarrow> string list \<Rightarrow> string \<Rightarrow> bool" where
  "fits remaining accepted word =
     list_all (\<lambda>c. letters_in accepted c + int (count_list word c) \<le> getitem remaining c) word"

text \<open>
  The words \<open>ws\<close> use up \<open>remaining\<close> exactly: every character occurs in them as often
  as \<open>remaining\<close> counts it.
\<close>

definition exact_cover :: "counter \<Rightarrow> string list \<Rightarrow> bool" where
  "exact_cover remaining ws = (\<forall>c. letters_in ws c = getitem remaining c)"

section \<open>Reading and writing a Counter\<close>

lemma getitem_update: "getitem (AList.update k v m) c = (if c = k then v else getitem m c)"
  by (simp add: getitem_def update_conv')

lemma getitem_delete: "getitem (AList.delete k m) c = (if c = k then 0 else getitem m c)"
  by (simp add: getitem_def delete_conv')

lemma getitem_Nil: "getitem [] c = 0"
  by (simp add: getitem_def)

lemma keys_update: "set (keys (AList.update k v m)) = insert k (set (keys m))"
  by (induction m) (auto simp: keys_def)

lemma keys_delete: "set (keys (AList.delete k m)) = set (keys m) - {k}"
  by (induction m) (auto simp: keys_def)

lemma getitem_absent: "c \<notin> set (keys m) \<Longrightarrow> getitem m c = 0"
  by (induction m) (auto simp: getitem_def keys_def)

lemma map_of_getitem:
  "map_of m c = (if c \<in> set (keys m) then Some (getitem m c) else None)"
  by (auto simp: getitem_def keys_def map_of_eq_None_iff split: option.splits)

lemma distinct_keys_update: "distinct (keys m) \<Longrightarrow> distinct (keys (AList.update k v m))"
  by (simp add: keys_def distinct_update)

lemma distinct_keys_delete: "distinct (keys m) \<Longrightarrow> distinct (keys (AList.delete k m))"
  by (simp add: keys_def distinct_delete)

lemma fold_count_getitem:
  "getitem (fold (\<lambda>c m. AList.update c (getitem m c + 1) m) s m) c
     = getitem m c + int (count_list s c)"
  by (induction s arbitrary: m) (auto simp: getitem_update)

lemma fold_count_keys:
  "set (keys (fold (\<lambda>c m. AList.update c (getitem m c + 1) m) s m)) = set (keys m) \<union> set s"
  by (induction s arbitrary: m) (auto simp: keys_update)

lemma fold_count_distinct:
  "distinct (keys m) \<Longrightarrow> distinct (keys (fold (\<lambda>c m. AList.update c (getitem m c + 1) m) s m))"
  by (induction s arbitrary: m) (auto simp: distinct_keys_update)

lemma getitem_Counter: "getitem (Counter s) c = int (count_list s c)"
  by (simp add: Counter_def fold_count_getitem getitem_Nil)

lemma keys_Counter: "set (keys (Counter s)) = set s"
  using fold_count_keys [of s "[]"] by (simp add: Counter_def keys_def)

lemma distinct_keys_Counter: "distinct (keys (Counter s))"
  using fold_count_distinct [of "[]" s] by (simp add: Counter_def keys_def)

section \<open>The subtraction never raises\<close>

text \<open>
  After \<open>del remaining[char]\<close> the key reads as \<open>0\<close>, and a count that was kept is
  positive: the test \<open>remaining[char] < 0\<close> is false in both cases.
\<close>

lemma subtract_body_no_error: "fst (subtract_body word wc c m) = None"
  by (simp add: subtract_body_def Let_def getitem_update getitem_delete)

lemma subtract_loop_eq:
  "subtract_loop word wc cs m = Inr (fold (\<lambda>c m. snd (subtract_body word wc c m)) cs m)"
proof (induction cs arbitrary: m)
  case Nil
  show ?case by simp
next
  case (Cons c cs)
  obtain e m' where b: "subtract_body word wc c m = (e, m')"
    by (cases "subtract_body word wc c m")
  with subtract_body_no_error [of word wc c m] have "e = None" by simp
  with b Cons show ?case by simp
qed

lemma getitem_subtract_body:
  "getitem (snd (subtract_body word wc c m)) d =
     (if d = c \<and> c \<in> set (keys m) then max 0 (getitem m c - getitem wc c) else getitem m d)"
  by (auto simp: subtract_body_def contains_def Let_def getitem_update getitem_delete)

lemma keys_subtract_body:
  "set (keys (snd (subtract_body word wc c m))) =
     (if c \<in> set (keys m) \<and> getitem m c - getitem wc c \<le> 0
      then set (keys m) - {c} else set (keys m))"
  by (auto simp: subtract_body_def contains_def Let_def getitem_update getitem_delete
      keys_update keys_delete)

lemma distinct_keys_subtract_body:
  "distinct (keys m) \<Longrightarrow> distinct (keys (snd (subtract_body word wc c m)))"
  by (auto simp: subtract_body_def contains_def Let_def distinct_keys_update
      distinct_keys_delete)

lemma getitem_fold_subtract:
  "distinct cs \<Longrightarrow>
   getitem (fold (\<lambda>c m. snd (subtract_body word wc c m)) cs m) d =
     (if d \<in> set cs \<and> d \<in> set (keys m) then max 0 (getitem m d - getitem wc d)
      else getitem m d)"
proof (induction cs arbitrary: m)
  case Nil
  show ?case by simp
next
  case (Cons c cs)
  let ?m = "snd (subtract_body word wc c m)"
  have "getitem (fold (\<lambda>c m. snd (subtract_body word wc c m)) cs ?m) d =
     (if d \<in> set cs \<and> d \<in> set (keys ?m) then max 0 (getitem ?m d - getitem wc d)
      else getitem ?m d)"
    using Cons by simp
  with Cons.prems show ?case
    by (auto simp: getitem_subtract_body keys_subtract_body)
qed

lemma keys_fold_subtract:
  "distinct cs \<Longrightarrow>
   set (keys (fold (\<lambda>c m. snd (subtract_body word wc c m)) cs m)) =
     set (keys m) - {c \<in> set cs. getitem m c - getitem wc c \<le> 0}"
proof (induction cs arbitrary: m)
  case Nil
  show ?case by simp
next
  case (Cons c cs)
  let ?m = "snd (subtract_body word wc c m)"
  have "set (keys (fold (\<lambda>c m. snd (subtract_body word wc c m)) cs ?m)) =
     set (keys ?m) - {c \<in> set cs. getitem ?m c - getitem wc c \<le> 0}"
    using Cons by simp
  with Cons.prems show ?case
    by (auto simp: getitem_subtract_body keys_subtract_body)
qed

lemma distinct_keys_fold_subtract:
  "distinct (keys m) \<Longrightarrow>
   distinct (keys (fold (\<lambda>c m. snd (subtract_body word wc c m)) cs m))"
  by (induction cs arbitrary: m) (simp_all add: distinct_keys_subtract_body)

lemma subtract_letters_eq:
  "subtract_letters lower m word =
     Inr (fold (\<lambda>c m. snd (subtract_body word (Counter (lower word)) c m))
            (keys (Counter (lower word))) m)"
  by (simp add: subtract_letters_def subtract_loop_eq Let_def)

lemma subtract_letters_Inr: "\<exists>m'. subtract_letters lower m word = Inr m'"
  by (simp add: subtract_letters_eq)

lemma getitem_subtract_letters:
  "subtract_letters lower m word = Inr m' \<Longrightarrow>
   getitem m' d =
     (if d \<in> set (lower word) \<and> d \<in> set (keys m)
      then max 0 (getitem m d - int (count_list (lower word) d)) else getitem m d)"
  by (auto simp: subtract_letters_eq getitem_fold_subtract distinct_keys_Counter keys_Counter
      getitem_Counter)

lemma keys_subtract_letters:
  "subtract_letters lower m word = Inr m' \<Longrightarrow>
   set (keys m') =
     set (keys m) - {c \<in> set (lower word). getitem m c - int (count_list (lower word) c) \<le> 0}"
  by (auto simp: subtract_letters_eq keys_fold_subtract distinct_keys_Counter keys_Counter
      getitem_Counter)

lemma distinct_keys_subtract_letters:
  "subtract_letters lower m word = Inr m' \<Longrightarrow> distinct (keys m) \<Longrightarrow> distinct (keys m')"
  by (auto simp: subtract_letters_eq distinct_keys_fold_subtract)

lemma exclude_loop_no_error: "fst (exclude_loop lower ws m) = None"
proof (induction ws arbitrary: m)
  case Nil
  show ?case by simp
next
  case (Cons w ws)
  obtain m' where "subtract_letters lower m w = Inr m'"
    using subtract_letters_Inr by blast
  with Cons show ?case by simp
qed

section \<open>The sum of the counts\<close>

lemma sum_values_update:
  "distinct (keys m) \<Longrightarrow>
   sum_values (AList.update c v m) = sum_values m - getitem m c + v"
proof (induction m)
  case Nil
  show ?case by (simp add: sum_values_def getitem_def)
next
  case (Cons p m)
  obtain k n where p: "p = (k, n)" by (cases p)
  show ?case
  proof (cases "k = c")
    case True
    with p show ?thesis by (simp add: sum_values_def getitem_def)
  next
    case False
    with p Cons show ?thesis by (simp add: sum_values_def getitem_def keys_def)
  qed
qed


lemma sum_values_fold_count:
  "distinct (keys m) \<Longrightarrow>
   sum_values (fold (\<lambda>c m. AList.update c (getitem m c + 1) m) s m)
     = sum_values m + int (length s)"
  by (induction s arbitrary: m) (simp_all add: sum_values_update distinct_keys_update)

lemma sum_values_Counter: "sum_values (Counter s) = int (length s)"
  using sum_values_fold_count [of "[]" s] by (simp add: Counter_def keys_def sum_values_def)

lemma count_list_pos: "c \<in> set s \<Longrightarrow> 0 < count_list s c"
  using count_list_0_iff [of s c] by simp




lemma is_valid_anagram_iff:
  "is_valid_anagram m word \<longleftrightarrow> (\<forall>c \<in> set word. int (count_list word c) \<le> getitem m c)"
  by (simp add: is_valid_anagram_def Let_def list_all_iff keys_Counter getitem_Counter)


section \<open>Lower case\<close>

lemma lower_fixed:
  "lower_keeps_fixed lower \<Longrightarrow> \<forall>c \<in> set s. lower [c] = [c] \<Longrightarrow> lower s = s"
  unfolding lower_keeps_fixed_def list_all_iff by blast

lemma lower_output:
  "lower_output_fixed lower \<Longrightarrow> c \<in> set (lower s) \<Longrightarrow> lower [c] = [c]"
  unfolding lower_output_fixed_def list_all_iff by blast

text \<open>The function for ASCII text has both properties.\<close>

lemma ascii_lower_char_idem: "ascii_lower_char (ascii_lower_char c) = ascii_lower_char c"
proof (cases "65 \<le> (of_char c :: nat) \<and> (of_char c :: nat) \<le> 90")
  case True
  then have l: "ascii_lower_char c = char_of ((of_char c :: nat) + 32)"
    by (simp add: ascii_lower_char_def)
  from True have "(of_char (ascii_lower_char c) :: nat) = of_char c + 32"
    unfolding l by simp
  with True have "\<not> (65 \<le> (of_char (ascii_lower_char c) :: nat) \<and>
      (of_char (ascii_lower_char c) :: nat) \<le> 90)"
    by simp
  then show ?thesis
    unfolding ascii_lower_char_def [of "ascii_lower_char c"] by (auto simp: Let_def)
next
  case False
  then have "ascii_lower_char c = c"
    by (auto simp: ascii_lower_char_def)
  then show ?thesis by simp
qed

lemma ascii_lower_output_fixed: "lower_output_fixed ascii_lower"
  by (auto simp: lower_output_fixed_def list_all_iff ascii_lower_def ascii_lower_char_idem)

lemma ascii_lower_keeps_fixed: "lower_keeps_fixed ascii_lower"
  by (simp add: lower_keeps_fixed_def list_all_iff ascii_lower_def map_idI)

section \<open>Positive counts\<close>

lemma positive_counts_iff: "positive_counts m \<longleftrightarrow> (\<forall>n \<in> snd ` set m. 0 < n)"
  by (simp add: positive_counts_def list_all_iff)

lemma snd_update_subset: "snd ` set (AList.update k v m) \<subseteq> insert v (snd ` set m)"
  by (induction m) auto

lemma snd_delete_subset: "snd ` set (AList.delete k m) \<subseteq> snd ` set m"
  by (induction m) auto

lemma positive_counts_subtract_body:
  assumes "positive_counts m"
  shows "positive_counts (snd (subtract_body word wc c m))"
proof (cases "contains m c")
  case False
  with assms show ?thesis by (simp add: subtract_body_def)
next
  case True
  let ?v = "getitem m c - getitem wc c"
  show ?thesis
  proof (cases "?v \<le> 0")
    case le: True
    with True have "snd (subtract_body word wc c m) = AList.delete c m"
      by (simp add: subtract_body_def Let_def getitem_update delete_update_same)
    with snd_delete_subset [of c m]
    have "snd ` set (snd (subtract_body word wc c m)) \<subseteq> snd ` set m"
      by simp
    with assms show ?thesis
      unfolding positive_counts_iff by blast
  next
    case gt: False
    with True have "snd (subtract_body word wc c m) = AList.update c ?v m"
      by (simp add: subtract_body_def Let_def getitem_update)
    with snd_update_subset [of c ?v m]
    have "snd ` set (snd (subtract_body word wc c m)) \<subseteq> insert ?v (snd ` set m)"
      by simp
    with assms gt show ?thesis
      unfolding positive_counts_iff by fastforce
  qed
qed

lemma positive_counts_fold_subtract:
  "positive_counts m \<Longrightarrow>
   positive_counts (fold (\<lambda>c m. snd (subtract_body word wc c m)) cs m)"
  by (induction cs arbitrary: m) (simp_all add: positive_counts_subtract_body)

lemma positive_counts_subtract_letters:
  "subtract_letters lower m word = Inr m' \<Longrightarrow> positive_counts m \<Longrightarrow> positive_counts m'"
  by (auto simp: subtract_letters_eq positive_counts_fold_subtract)

text \<open>
  C10. \<open>subtract_letters\<close> returns a Counter for every Counter and every word, it never
  raises. A character of the word that the Counter does not have is passed over, a count
  that would reach zero or less is deleted, every other count is lowered by the
  character's count in the lower-cased word; and when the counts that come in are
  positive, so are the counts that come out.
\<close>

theorem subtract_letters_never_raises:
  "\<exists>m'. subtract_letters lower m word = Inr m' \<and>
     (\<forall>c. map_of m' c =
        (if c \<in> set (lower word) \<and> c \<in> set (keys m) then
           (if getitem m c - int (count_list (lower word) c) \<le> 0 then None
            else Some (getitem m c - int (count_list (lower word) c)))
         else map_of m c)) \<and>
     (positive_counts m \<longrightarrow> positive_counts m')"
proof -
  obtain m' where m': "subtract_letters lower m word = Inr m'"
    using subtract_letters_Inr by blast
  have "map_of m' c =
        (if c \<in> set (lower word) \<and> c \<in> set (keys m) then
           (if getitem m c - int (count_list (lower word) c) \<le> 0 then None
            else Some (getitem m c - int (count_list (lower word) c)))
         else map_of m c)" for c
    unfolding map_of_getitem [of m' c] map_of_getitem [of m c]
      keys_subtract_letters [OF m'] getitem_subtract_letters [OF m']
    by auto
  with m' positive_counts_subtract_letters [OF m'] show ?thesis
    by blast
qed

theorem subtract_letters_never_raises_witness:
  "positive_counts [(CHR ''c'', 1), (CHR ''a'', 2)] \<and>
   subtract_letters ascii_lower [(CHR ''c'', 1), (CHR ''a'', 2)] ''Ab'' = Inr [(CHR ''c'', 1), (CHR ''a'', 1)] \<and>
   map_of [(CHR ''c'', 1), (CHR ''a'', 1 :: int)] (CHR ''b'') = None \<and>
   positive_counts [(CHR ''c'', 1), (CHR ''a'', 1)]"
proof -
  have p: "positive_counts [(CHR ''c'', 1), (CHR ''a'', 2)]"
    by code_simp
  have s: "subtract_letters ascii_lower [(CHR ''c'', 1), (CHR ''a'', 2)] ''Ab''
             = Inr [(CHR ''c'', 1), (CHR ''a'', 1)]"
    by code_simp
  show ?thesis
    using subtract_letters_never_raises [of ascii_lower "[(CHR ''c'', 1), (CHR ''a'', 2)]" "''Ab''"] p
    unfolding s by auto
qed



section \<open>The subtraction on the store\<close>

lemma subtract_loop_st_eq:
  "r < length h \<Longrightarrow>
   subtract_loop_st word wc r cs h =
     (Inr (), h[r := fold (\<lambda>c m. snd (subtract_body word wc c m)) cs (h ! r)])"
proof (induction cs arbitrary: h)
  case Nil
  then show ?case by simp
next
  case (Cons c cs)
  obtain e m' where b: "subtract_body word wc c (h ! r) = (e, m')"
    by (cases "subtract_body word wc c (h ! r)")
  with subtract_body_no_error [of word wc c "h ! r"] have e: "e = None" by simp
  from Cons.prems have "r < length (h[r := m'])" by simp
  from Cons.IH [OF this] b e Cons.prems show ?case by simp
qed

lemma subtract_letters_st_eq:
  assumes "r < length h" and "subtract_letters lower (h ! r) word = Inr m'"
  shows "subtract_letters_st lower r word h = (Inr (length h), h @ [m'])"
proof -
  let ?wc = "Counter (lower word)"
  have "length h < length (h @ [h ! r])" by simp
  from subtract_loop_st_eq [OF this, of word ?wc "keys ?wc"] assms(2)
  show ?thesis
    by (simp add: subtract_letters_st_def counter_copy_def subtract_letters_eq Let_def)
qed

text \<open>
  C1, as the code has it. \<open>subtract_letters\<close> works on a copy: whatever the word, every
  object of the store that was there before the call, the caller's Counter among them,
  is as it was. A character of the lower-cased word that the Counter does not have is
  passed over, it is no error: when no character that the Counter has is taken more
  often than the Counter counts it, the call returns a new object; there every key of
  the Counter has its count lowered by the character's count in the word, a key whose
  count reaches zero is gone, and no key is added.
\<close>

theorem subtract_letters_st_copy:
  assumes "r < length h"
  shows "(\<forall>a < length h. snd (subtract_letters_st lower r word h) ! a = h ! a) \<and>
     ((\<forall>c \<in> set (lower word). c \<in> set (keys (h ! r)) \<longrightarrow>
          int (count_list (lower word) c) \<le> getitem (h ! r) c) \<longrightarrow>
      (\<exists>m'. subtract_letters_st lower r word h = (Inr (length h), h @ [m']) \<and>
         (\<forall>c. getitem m' c =
            (if c \<in> set (keys (h ! r)) then getitem (h ! r) c - int (count_list (lower word) c)
             else 0)) \<and>
         set (keys m') =
           set (keys (h ! r)) - {c \<in> set (lower word).
                                  getitem (h ! r) c = int (count_list (lower word) c)}))"
proof -
  obtain m' where m': "subtract_letters lower (h ! r) word = Inr m'"
    using subtract_letters_Inr by blast
  note st = subtract_letters_st_eq [OF assms m']
  have "\<forall>a < length h. snd (subtract_letters_st lower r word h) ! a = h ! a"
    by (simp add: st nth_append)
  moreover have "getitem m' c =
            (if c \<in> set (keys (h ! r)) then getitem (h ! r) c - int (count_list (lower word) c)
             else 0)"
    if "\<forall>c \<in> set (lower word). c \<in> set (keys (h ! r)) \<longrightarrow>
          int (count_list (lower word) c) \<le> getitem (h ! r) c" for c
    using that getitem_absent [of c "h ! r"]
    by (auto simp: getitem_subtract_letters [OF m'])
  moreover have "set (keys m') =
           set (keys (h ! r)) - {c \<in> set (lower word).
                                  getitem (h ! r) c = int (count_list (lower word) c)}"
    if "\<forall>c \<in> set (lower word). c \<in> set (keys (h ! r)) \<longrightarrow>
          int (count_list (lower word) c) \<le> getitem (h ! r) c"
    using that unfolding keys_subtract_letters [OF m'] by fastforce
  ultimately show ?thesis
    using st by blast
qed

theorem subtract_letters_st_copy_witness:
  "(0::nat) < length [Counter ''cat''] \<and>
   ascii_lower ''Dat'' = ''dat'' \<and> keys ([Counter ''cat''] ! 0) = ''cat'' \<and>
   subtract_letters_st ascii_lower 0 ''Dat'' [Counter ''cat'']
     = (Inr 1, [Counter ''cat'', [(CHR ''c'', 1)]]) \<and>
   snd (subtract_letters_st ascii_lower 0 ''Dat'' [Counter ''cat'']) ! 0 = Counter ''cat'' \<and>
   getitem [(CHR ''c'', 1)] (CHR ''a'')
     = getitem ([Counter ''cat''] ! 0) (CHR ''a'') - int (count_list (ascii_lower ''Dat'') (CHR ''a''))"
proof -
  have l: "(0::nat) < length [Counter ''cat'']" by simp
  have lw: "ascii_lower ''Dat'' = ''dat''" and k: "keys ([Counter ''cat''] ! 0) = ''cat''"
    by code_simp+
  have g: "getitem ([Counter ''cat''] ! 0) (CHR ''a'') = 1"
    "getitem ([Counter ''cat''] ! 0) (CHR ''t'') = 1"
    by code_simp+
  have h: "\<forall>c \<in> set (ascii_lower ''Dat''). c \<in> set (keys ([Counter ''cat''] ! 0)) \<longrightarrow>
             int (count_list (ascii_lower ''Dat'') c) \<le> getitem ([Counter ''cat''] ! 0) c"
    unfolding lw k using g by simp
  have s: "subtract_letters_st ascii_lower 0 ''Dat'' [Counter ''cat'']
             = (Inr 1, [Counter ''cat'', [(CHR ''c'', 1)]])"
    by code_simp
  from subtract_letters_st_copy [OF l, of ascii_lower "''Dat''"] h obtain m' where
    m: "subtract_letters_st ascii_lower 0 ''Dat'' [Counter ''cat''] = (Inr (length [Counter ''cat'']), [Counter ''cat''] @ [m'])"
    and c: "\<forall>c. getitem m' c =
            (if c \<in> set (keys ([Counter ''cat''] ! 0))
             then getitem ([Counter ''cat''] ! 0) c - int (count_list (ascii_lower ''Dat'') c) else 0)"
    and u: "\<forall>a < length [Counter ''cat'']. snd (subtract_letters_st ascii_lower 0 ''Dat'' [Counter ''cat'']) ! a = [Counter ''cat''] ! a"
    by blast
  from m s have "m' = [(CHR ''c'', 1)]" by simp
  with c have "getitem [(CHR ''c'', 1)] (CHR ''a'')
     = getitem ([Counter ''cat''] ! 0) (CHR ''a'') - int (count_list (ascii_lower ''Dat'') (CHR ''a''))"
    unfolding k by simp
  moreover from u have "snd (subtract_letters_st ascii_lower 0 ''Dat'' [Counter ''cat'']) ! 0 = Counter ''cat''"
    by simp
  ultimately show ?thesis
    using l lw k s by blast
qed

text \<open>
  The base \<open>{c: 1, a: 1, t: 1}\<close> has no \<open>d\<close>, and subtracting \<open>dog\<close> is no error.
\<close>

theorem subtract_absent_letter_no_error:
  "\<not> contains (Counter ''cat'') (CHR ''d'') \<and>
   subtract_letters ascii_lower (Counter ''cat'') ''dog''
     = Inr [(CHR ''c'', 1), (CHR ''a'', 1), (CHR ''t'', 1)]"
  by code_simp

section \<open>The check only reads\<close>

lemma all_covered_st_eq:
  "all_covered_st wc r cs h = (list_all (\<lambda>c. getitem wc c \<le> getitem (h ! r) c) cs, h)"
  by (induction cs) simp_all

text \<open>
  C7, as the code has it. \<open>is_valid_anagram\<close> is true exactly when every character of
  the word, as it is written, occurs in the word at most as often as the Counter counts
  it; the case is not folded. The check leaves the store as it is.
\<close>

theorem is_valid_anagram_st_reads:
  "is_valid_anagram_st r word h =
     ((\<forall>c \<in> set word. int (count_list word c) \<le> getitem (h ! r) c), h) \<and>
   fst (is_valid_anagram_st r word h) = is_valid_anagram (h ! r) word"
  by (simp add: is_valid_anagram_st_def is_valid_anagram_def Let_def all_covered_st_eq
      list_all_iff keys_Counter getitem_Counter)

theorem is_valid_anagram_st_reads_witness:
  "is_valid_anagram_st 0 ''tac'' [Counter ''cat''] = (True, [Counter ''cat'']) \<and>
   is_valid_anagram ([Counter ''cat''] ! 0) ''tac'' \<and>
   int (count_list ''tac'' (CHR ''a'')) \<le> getitem ([Counter ''cat''] ! 0) (CHR ''a'')"
proof -
  have "is_valid_anagram_st 0 ''tac'' [Counter ''cat''] = (True, [Counter ''cat''])"
    by code_simp
  with is_valid_anagram_st_reads [of 0 "''tac''" "[Counter ''cat'']"] show ?thesis
    by simp
qed

text \<open>
  The word \<open>A\<close> does not pass the check against \<open>{a: 1}\<close>, its lower-case form does.
\<close>

theorem is_valid_anagram_case_sensitive:
  "is_valid_anagram (Counter ''a'') (ascii_lower ''A'') \<and> \<not> is_valid_anagram (Counter ''a'') ''A''"
  by code_simp

section \<open>The anagrams that are found\<close>

lemma exclude_loop_eq: "exclude_loop lower ws m = (None, snd (exclude_loop lower ws m))"
  using exclude_loop_no_error [of lower ws m] by (cases "exclude_loop lower ws m") simp

lemma find_anagrams_eq:
  "find_anagrams lower letters word_list min_length exclude_words =
     (match_words (snd (find_anagrams lower letters word_list min_length exclude_words))
        word_list min_length,
      snd (find_anagrams lower letters [] 0 exclude_words))"
proof (cases exclude_words)
  case None
  then show ?thesis by (simp add: find_anagrams_def Let_def)
next
  case (Some ws)
  let ?m = "Counter (lower (filter (\<lambda>c. c \<noteq> CHR '' '') letters))"
  show ?thesis
    using Some exclude_loop_eq [of lower ws ?m]
    by (cases "exclude_loop lower ws ?m") (simp add: find_anagrams_def Let_def)
qed

lemma set_match_words:
  "set (match_words M word_list L) =
     {W \<in> set word_list. is_valid_anagram M W \<and> L \<le> int (length W) \<and>
        int (length W) \<le> sum_values M}"
  by (auto simp: match_words_def)

lemma key_le_iff:
  "(- int (length v), v) \<le> (- int (length w), w) \<longleftrightarrow>
     length w < length v \<or> (length v = length w \<and> v \<le> w)"
  by (auto simp: less_eq_prod_def)

lemma sorted_match_words:
  "sorted_wrt (\<lambda>v w. length w < length v \<or> (length v = length w \<and> v \<le> w))
     (match_words M word_list L)"
proof -
  have "sorted (map (\<lambda>x. (- int (length x), x)) (match_words M word_list L))"
    unfolding match_words_def by (rule sorted_sort_key)
  then have "sorted_wrt (\<lambda>v w. (- int (length v), v) \<le> (- int (length w), w))
     (match_words M word_list L)"
    by (simp add: sorted_map)
  then show ?thesis
    by (simp only: key_le_iff)
qed

lemma sort_key_inj_unique:
  assumes "inj f" and "distinct xs" and "distinct ys" and "set xs = set ys"
  shows "sort_key f xs = sort_key f ys"
proof -
  have "map f (sort_key f xs) = map f (sort_key f ys)"
  proof (rule sorted_distinct_set_unique)
    show "sorted (map f (sort_key f xs))" and "sorted (map f (sort_key f ys))"
      by (rule sorted_sort_key)+
    show "distinct (map f (sort_key f xs))" and "distinct (map f (sort_key f ys))"
      using assms by (simp_all add: distinct_map inj_on_subset [OF assms(1)])
    show "set (map f (sort_key f xs)) = set (map f (sort_key f ys))"
      using assms(4) by simp
  qed
  with assms(1) show ?thesis by simp
qed

lemma match_words_order_independent:
  assumes "distinct word_list" and "distinct word_list'" and "set word_list = set word_list'"
  shows "match_words M word_list L = match_words M word_list' L"
  unfolding match_words_def
  by (rule sort_key_inj_unique) (use assms in \<open>auto simp: inj_on_def\<close>)

lemma set_match_words_letters:
  "set (match_words M word_list L) =
     {W \<in> set word_list.
        (\<forall>c \<in> set W. int (count_list W c) \<le> getitem M c) \<and>
        L \<le> int (length W) \<and> int (length W) \<le> sum_list (map snd M)}"
  unfolding set_match_words is_valid_anagram_iff sum_values_def ..

lemma find_anagrams_no_exclusion:
  "snd (find_anagrams lower letters word_list L None)
     = Counter (lower (filter (\<lambda>c. c \<noteq> CHR '' '') letters))"
  by (simp add: find_anagrams_def Let_def)

text \<open>
  C3, as the code has it. A word is in the output of the matcher exactly when it is in
  the word list, every character of it occurs in it at most as often as the letter
  multiset counts the character, it is at least \<open>min_length\<close> long, and it is at most as
  long as the sum of the counts. The characters are counted in the word as it is
  written, the case is not folded. This holds for the loop of the matcher on any
  multiset, and \<open>find_anagrams\<close> runs that loop on the multiset it returns; without
  exclusions that multiset counts the characters of the lower-cased letters without the
  spaces, so that the condition is one on the letters themselves. For a word list of
  lower-case words, which \<open>lower\<close> leaves alone, the condition is the one on the
  case-folded word.
\<close>

theorem match_words_sound_complete:
  "set (match_words M word_list L) =
     {W \<in> set word_list.
        (\<forall>c \<in> set W. int (count_list W c) \<le> getitem M c) \<and>
        L \<le> int (length W) \<and> int (length W) \<le> sum_list (map snd M)} \<and>
   set (fst (find_anagrams lower letters word_list L exclude_words)) =
     {W \<in> set word_list.
        (\<forall>c \<in> set W. int (count_list W c)
           \<le> getitem (snd (find_anagrams lower letters word_list L exclude_words)) c) \<and>
        L \<le> int (length W) \<and>
        int (length W)
          \<le> sum_list (map snd (snd (find_anagrams lower letters word_list L exclude_words)))} \<and>
   set (fst (find_anagrams lower letters word_list L None)) =
     {W \<in> set word_list.
        (\<forall>c \<in> set W. count_list W c
           \<le> count_list (lower (filter (\<lambda>c. c \<noteq> CHR '' '') letters)) c) \<and>
        L \<le> int (length W) \<and>
        length W \<le> length (lower (filter (\<lambda>c. c \<noteq> CHR '' '') letters))} \<and>
   ((\<forall>W \<in> set word_list. lower W = W) \<longrightarrow>
      set (match_words M word_list L) =
        {W \<in> set word_list.
           (\<forall>c \<in> set (lower W). int (count_list (lower W) c) \<le> getitem M c) \<and>
           L \<le> int (length W) \<and> int (length W) \<le> sum_list (map snd M)})"
proof -
  have f: "fst (find_anagrams lower letters word_list L ex) =
     match_words (snd (find_anagrams lower letters word_list L ex)) word_list L" for ex
    using find_anagrams_eq [of lower letters word_list L ex]
    by (metis fst_conv)
  have a: "set (fst (find_anagrams lower letters word_list L exclude_words)) =
     {W \<in> set word_list.
        (\<forall>c \<in> set W. int (count_list W c)
           \<le> getitem (snd (find_anagrams lower letters word_list L exclude_words)) c) \<and>
        L \<le> int (length W) \<and>
        int (length W)
          \<le> sum_list (map snd (snd (find_anagrams lower letters word_list L exclude_words)))}"
    by (simp only: f set_match_words_letters)
  let ?s = "lower (filter (\<lambda>c. c \<noteq> CHR '' '') letters)"
  have "set (fst (find_anagrams lower letters word_list L None)) =
      set (match_words (Counter ?s) word_list L)"
    by (simp only: f find_anagrams_no_exclusion)
  also have "\<dots> = {W \<in> set word_list.
        (\<forall>c \<in> set W. count_list W c \<le> count_list ?s c) \<and>
        L \<le> int (length W) \<and> length W \<le> length ?s}"
    using sum_values_Counter [of ?s]
    by (simp add: set_match_words_letters getitem_Counter sum_values_def)
  finally have b: "set (fst (find_anagrams lower letters word_list L None)) =
     {W \<in> set word_list.
        (\<forall>c \<in> set W. count_list W c \<le> count_list ?s c) \<and>
        L \<le> int (length W) \<and> length W \<le> length ?s}" .
  have c: "set (match_words M word_list L) =
        {W \<in> set word_list.
           (\<forall>c \<in> set (lower W). int (count_list (lower W) c) \<le> getitem M c) \<and>
           L \<le> int (length W) \<and> int (length W) \<le> sum_list (map snd M)}"
    if "\<forall>W \<in> set word_list. lower W = W"
    using that unfolding set_match_words_letters by auto
  from a b c show ?thesis
    using set_match_words_letters [of M word_list L] by blast
qed

theorem match_words_sound_complete_witness:
  "ascii_lower ''tin'' = ''tin'' \<and> ascii_lower ''tint'' = ''tint'' \<and>
   ''tin'' \<in> set (match_words (Counter ''listen'') [''tin'', ''tint''] 1) \<and>
   int (count_list (ascii_lower ''tin'') (CHR ''t'')) \<le> getitem (Counter ''listen'') (CHR ''t'') \<and>
   \<not> int (count_list (ascii_lower ''tint'') (CHR ''t'')) \<le> getitem (Counter ''listen'') (CHR ''t'') \<and>
   ''tint'' \<notin> set (match_words (Counter ''listen'') [''tin'', ''tint''] 1) \<and>
   fst (find_anagrams ascii_lower ''listen'' [''tin'', ''tint''] 1 None) = [''tin'']"
proof -
  have l: "ascii_lower ''tin'' = ''tin''" "ascii_lower ''tint'' = ''tint''"
    by code_simp+
  then have h: "\<forall>W \<in> set [''tin'', ''tint'']. ascii_lower W = W"
    by simp
  have m: "''tin'' \<in> set (match_words (Counter ''listen'') [''tin'', ''tint''] 1)"
    by code_simp
  have n: "\<not> int (count_list (ascii_lower ''tint'') (CHR ''t''))
             \<le> getitem (Counter ''listen'') (CHR ''t'')"
    by code_simp
  have t: "CHR ''t'' \<in> set (ascii_lower ''tin'')" "CHR ''t'' \<in> set (ascii_lower ''tint'')"
    unfolding l by simp_all
  have f: "fst (find_anagrams ascii_lower ''listen'' [''tin'', ''tint''] 1 None) = [''tin'']"
    by code_simp
  from match_words_sound_complete [of "Counter ''listen''" "[''tin'', ''tint'']" 1
      ascii_lower "''listen''" None] h
  have e: "set (match_words (Counter ''listen'') [''tin'', ''tint''] 1) =
        {W \<in> set [''tin'', ''tint''].
           (\<forall>c \<in> set (ascii_lower W). int (count_list (ascii_lower W) c)
              \<le> getitem (Counter ''listen'') c) \<and>
           1 \<le> int (length W) \<and>
           int (length W) \<le> sum_list (map snd (Counter ''listen''))}"
    by blast
  from m t(1) have 1: "int (count_list (ascii_lower ''tin'') (CHR ''t''))
      \<le> getitem (Counter ''listen'') (CHR ''t'')"
    unfolding e by blast
  from n t(2) have 2: "''tint'' \<notin> set (match_words (Counter ''listen'') [''tin'', ''tint''] 1)"
    unfolding e by blast
  from l m n f 1 2 show ?thesis
    by blast
qed

text \<open>
  The word \<open>A\<close> is covered by the letters \<open>a\<close> once its case is folded, and it has the
  right length, but the matcher does not return it.
\<close>

theorem uppercase_word_not_matched:
  "is_valid_anagram (Counter ''a'') (ascii_lower ''A'') \<and>
   (1::int) \<le> int (length ''A'') \<and> int (length ''A'') \<le> sum_values (Counter ''a'') \<and>
   find_anagrams ascii_lower ''a'' [''A''] 1 None = ([], [(CHR ''a'', 1)])"
  by code_simp

text \<open>
  C4. The output of the matcher is in descending order of length, and words of the same
  length are in ascending order of the strings. The order in which the loop meets the
  words of the set does not show in the output: two lists of the same distinct words
  give the same result.
\<close>

theorem match_words_sorted_deterministic:
  "sorted_wrt (\<lambda>v w. length w < length v \<or> (length v = length w \<and> v \<le> w))
     (fst (find_anagrams lower letters word_list L exclude_words)) \<and>
   sorted_wrt (\<lambda>v w. length w < length v \<or> (length v = length w \<and> v \<le> w))
     (match_words M word_list L) \<and>
   (distinct word_list \<and> distinct word_list' \<and> set word_list = set word_list' \<longrightarrow>
      match_words M word_list L = match_words M word_list' L \<and>
      find_anagrams lower letters word_list L exclude_words
        = find_anagrams lower letters word_list' L exclude_words)"
proof -
  have f: "fst (find_anagrams lower letters wl L exclude_words) =
     match_words (snd (find_anagrams lower letters [] 0 exclude_words)) wl L"
    and s: "snd (find_anagrams lower letters wl L exclude_words) =
     snd (find_anagrams lower letters [] 0 exclude_words)" for wl
    using find_anagrams_eq [of lower letters wl L exclude_words]
    by (metis fst_conv snd_conv)+
  have "find_anagrams lower letters word_list L exclude_words
        = find_anagrams lower letters word_list' L exclude_words"
    if "distinct word_list" "distinct word_list'" "set word_list = set word_list'"
    using match_words_order_independent [OF that] f s
    by (simp add: prod_eq_iff)
  then show ?thesis
    using sorted_match_words match_words_order_independent
    by (auto simp: f)
qed

theorem match_words_sorted_deterministic_witness:
  "distinct [''silent'', ''enlist'', ''tin'', ''lens''] \<and>
   distinct [''lens'', ''tin'', ''enlist'', ''silent''] \<and>
   set [''silent'', ''enlist'', ''tin'', ''lens''] = set [''lens'', ''tin'', ''enlist'', ''silent''] \<and>
   find_anagrams ascii_lower ''listen'' [''silent'', ''enlist'', ''tin'', ''lens''] 1 None
     = find_anagrams ascii_lower ''listen'' [''lens'', ''tin'', ''enlist'', ''silent''] 1 None \<and>
   fst (find_anagrams ascii_lower ''listen'' [''lens'', ''tin'', ''enlist'', ''silent''] 1 None)
     = [''enlist'', ''silent'', ''lens'', ''tin'']"
proof -
  have d: "distinct [''silent'', ''enlist'', ''tin'', ''lens'']"
    and d': "distinct [''lens'', ''tin'', ''enlist'', ''silent'']"
    by simp_all
  have e: "set [''silent'', ''enlist'', ''tin'', ''lens'']
             = set [''lens'', ''tin'', ''enlist'', ''silent'']"
    by auto
  have v: "fst (find_anagrams ascii_lower ''listen'' [''lens'', ''tin'', ''enlist'', ''silent''] 1 None)
     = [''enlist'', ''silent'', ''lens'', ''tin'']"
    by code_simp
  show ?thesis
    using match_words_sorted_deterministic [of ascii_lower "''listen''"
        "[''silent'', ''enlist'', ''tin'', ''lens'']" 1 None "[]"
        "[''lens'', ''tin'', ''enlist'', ''silent'']"] d d' e v
    by simp
qed

text \<open>
  C2, as the code has it. With the letters \<open>cat\<close> and the exclusion \<open>dog\<close> the
  subtraction passes over \<open>d\<close>, \<open>o\<close> and \<open>g\<close> and raises nothing; the multiset stays
  \<open>{c: 1, a: 1, t: 1}\<close>, and the result is the words of the word list that match it,
  together with that multiset.
\<close>

theorem cat_without_dog:
  assumes "lower ''cat'' = ''cat''" and "lower ''dog'' = ''dog''"
  shows "exclude_loop lower [''dog''] (Counter ''cat'')
           = (None, [(CHR ''c'', 1), (CHR ''a'', 1), (CHR ''t'', 1)]) \<and>
         find_anagrams lower ''cat'' word_list min_length (Some [''dog''])
           = (match_words [(CHR ''c'', 1), (CHR ''a'', 1), (CHR ''t'', 1)] word_list min_length,
              [(CHR ''c'', 1), (CHR ''a'', 1), (CHR ''t'', 1)])"
proof -
  have c: "Counter ''cat'' = [(CHR ''c'', 1), (CHR ''a'', 1), (CHR ''t'', 1)]"
    by code_simp
  have s: "subtract_letters lower (Counter ''cat'') ''dog''
             = Inr [(CHR ''c'', 1), (CHR ''a'', 1), (CHR ''t'', 1)]"
    unfolding subtract_letters_def assms by code_simp
  have e: "exclude_loop lower [''dog''] (Counter ''cat'')
     = (None, [(CHR ''c'', 1), (CHR ''a'', 1), (CHR ''t'', 1)])"
    by (simp add: s)
  show ?thesis
    by (simp add: find_anagrams_def Let_def assms e del: exclude_loop.simps)
qed

theorem cat_without_dog_witness:
  "ascii_lower ''cat'' = ''cat'' \<and> ascii_lower ''dog'' = ''dog'' \<and>
   find_anagrams ascii_lower ''cat'' [''tac'', ''at'', ''dog''] 3 (Some [''dog''])
     = (match_words [(CHR ''c'', 1), (CHR ''a'', 1), (CHR ''t'', 1)] [''tac'', ''at'', ''dog''] 3,
        [(CHR ''c'', 1), (CHR ''a'', 1), (CHR ''t'', 1)]) \<and>
   match_words [(CHR ''c'', 1), (CHR ''a'', 1), (CHR ''t'', 1)] [''tac'', ''at'', ''dog''] 3
     = [''tac'']"
proof -
  have l: "ascii_lower ''cat'' = ''cat''" "ascii_lower ''dog'' = ''dog''"
    by code_simp+
  have m: "match_words [(CHR ''c'', 1), (CHR ''a'', 1), (CHR ''t'', 1)] [''tac'', ''at'', ''dog''] 3
     = [''tac'']"
    by code_simp
  from cat_without_dog [OF l, of "[''tac'', ''at'', ''dog'']" 3] l m show ?thesis
    by blast
qed

text \<open>
  With the word list \<open>{act}\<close> the result for \<open>cat\<close> without \<open>dog\<close> is not empty.
\<close>

theorem cat_without_dog_finds_act:
  "find_anagrams ascii_lower ''cat'' [''act''] 1 (Some [''dog''])
     = ([''act''], [(CHR ''c'', 1), (CHR ''a'', 1), (CHR ''t'', 1)])"
  by code_simp

section \<open>The search for a full match\<close>

lemma find_full_match_no_error:
  "\<exists>r. find_full_match lower words cur m = Inr r"
  "\<exists>r. full_match_loop lower ws cur m = Inr r"
proof (induction lower words cur m and lower ws cur m rule: find_full_match_full_match_loop.induct)
  case (1 lower words cur m)
  then show ?case by simp
next
  case (2 lower cur m)
  show ?case by simp
next
  case (3 lower word rest cur m)
  obtain m' where m': "subtract_letters lower m word = Inr m'"
    using subtract_letters_Inr by blast
  show ?case
  proof (cases "list_all (\<lambda>c. getitem (Counter word) c \<le> getitem m c) (keys (Counter word))")
    case False
    with 3(3) [OF refl False] show ?thesis by simp
  next
    case True
    from 3(1) [OF refl True m'] obtain result
      where r: "find_full_match lower rest (cur @ [word]) m' = Inr result"
      by blast
    with 3(2) [OF refl True m' r] True m' show ?thesis
      by (cases "truthy result") (simp_all del: find_full_match.simps)
  qed
qed

lemma covered_in_keys:
  assumes "list_all (\<lambda>c. getitem (Counter w) c \<le> getitem m c) (keys (Counter w))"
    and "c \<in> set w"
  shows "c \<in> set (keys m)" and "int (count_list w c) \<le> getitem m c"
proof -
  from assms show le: "int (count_list w c) \<le> getitem m c"
    by (simp add: list_all_iff keys_Counter getitem_Counter)
  with count_list_pos [OF assms(2)] have "0 < getitem m c" by simp
  then show "c \<in> set (keys m)"
    using getitem_absent [of c m] by auto
qed

lemma covered_lower:
  assumes "list_all (\<lambda>c. getitem (Counter w) c \<le> getitem m c) (keys (Counter w))"
    and "lowercase_keys lower m" and "lower_keeps_fixed lower"
  shows "lower w = w"
proof (rule lower_fixed [OF assms(3)], rule ballI)
  fix c assume "c \<in> set w"
  with assms(1) have "c \<in> set (keys m)" by (rule covered_in_keys)
  with assms(2) show "lower [c] = [c]"
    by (simp add: lowercase_keys_def list_all_iff)
qed

lemma covered_subtract_exact:
  assumes c: "list_all (\<lambda>c. getitem (Counter w) c \<le> getitem m c) (keys (Counter w))"
    and l: "lowercase_keys lower m" and k: "lower_keeps_fixed lower"
    and s: "subtract_letters lower m w = Inr m'"
  shows "getitem m c = int (count_list w c) + getitem m' c"
proof (cases "c \<in> set w")
  case True
  with covered_in_keys [OF c True] show ?thesis
    by (simp add: getitem_subtract_letters [OF s] covered_lower [OF c l k])
next
  case False
  then show ?thesis
    by (simp add: getitem_subtract_letters [OF s] covered_lower [OF c l k])
qed

lemma lowercase_keys_before:
  assumes s: "subtract_letters lower m w = Inr m'" and l: "lowercase_keys lower m'"
    and o: "lower_output_fixed lower"
  shows "lowercase_keys lower m"
  unfolding lowercase_keys_def list_all_iff
proof
  fix c assume "c \<in> set (keys m)"
  then have "c \<in> set (keys m') \<or> c \<in> set (lower w)"
    unfolding keys_subtract_letters [OF s] by blast
  then show "lower [c] = [c]"
  proof
    assume "c \<in> set (keys m')"
    with l show ?thesis by (simp add: lowercase_keys_def list_all_iff)
  next
    assume "c \<in> set (lower w)"
    with o show ?thesis by (rule lower_output)
  qed
qed

text \<open>
  A key that \<open>lower\<close> changes is never deleted, so a search that ends with an empty
  Counter started from keys that \<open>lower\<close> leaves alone.
\<close>

lemma full_match_lowercase_keys:
  "lower_output_fixed lower \<Longrightarrow> find_full_match lower words cur m = Inr (Some res) \<Longrightarrow>
     lowercase_keys lower m"
  "lower_output_fixed lower \<Longrightarrow> full_match_loop lower ws cur m = Inr (Some res) \<Longrightarrow>
     lowercase_keys lower m"
proof (induction lower words cur m and lower ws cur m rule: find_full_match_full_match_loop.induct)
  case (1 lower words cur m)
  show ?case
  proof (cases "m = [] \<and> cur \<noteq> []")
    case True
    then show ?thesis by (simp add: lowercase_keys_def keys_def)
  next
    case False
    show ?thesis
    proof (cases "words = []")
      case True
      with False "1.prems"(2) show ?thesis by (auto split: if_splits)
    next
      case ne: False
      with False "1.prems"(2) have "full_match_loop lower words cur m = Inr (Some res)"
        by (auto split: if_splits)
      from "1.IH" [OF False ne "1.prems"(1) this] show ?thesis .
    qed
  qed
next
  case (2 lower cur m)
  then show ?case by simp
next
  case (3 lower word rest cur m)
  note o = "3.prems"(1) and e = "3.prems"(2)
  obtain m' where m': "subtract_letters lower m word = Inr m'"
    using subtract_letters_Inr by blast
  show ?case
  proof (cases "list_all (\<lambda>c. getitem (Counter word) c \<le> getitem m c) (keys (Counter word))")
    case False
    with e have "full_match_loop lower rest cur m = Inr (Some res)" by simp
    from "3.IH"(3) [OF refl False o this] show ?thesis .
  next
    case True
    obtain result where r: "find_full_match lower rest (cur @ [word]) m' = Inr result"
      using find_full_match_no_error(1) by blast
    show ?thesis
    proof (cases "truthy result")
      case t: True
      with e True m' r have "find_full_match lower rest (cur @ [word]) m' = Inr (Some res)"
        by (simp del: find_full_match.simps)
      from "3.IH"(1) [OF refl True m' o this] have "lowercase_keys lower m'" .
      with m' show ?thesis using o by (rule lowercase_keys_before)
    next
      case f: False
      with e True m' r have "full_match_loop lower rest cur m = Inr (Some res)"
        by (simp del: find_full_match.simps)
      from "3.IH"(2) [OF refl True m' r f o this] show ?thesis .
    qed
  qed
qed

lemma letters_in_Cons: "letters_in (w # ws) c = int (count_list w c) + letters_in ws c"
  by (simp add: letters_in_def)

lemma letters_in_Nil: "letters_in [] c = 0"
  by (simp add: letters_in_def)

lemma full_match_sound:
  "lower_output_fixed lower \<Longrightarrow> lower_keeps_fixed lower \<Longrightarrow>
   find_full_match lower words cur m = Inr (Some res) \<Longrightarrow>
     \<exists>chosen. res = cur @ chosen \<and> subseq chosen words \<and> exact_cover m chosen \<and> res \<noteq> []"
  "lower_output_fixed lower \<Longrightarrow> lower_keeps_fixed lower \<Longrightarrow>
   full_match_loop lower ws cur m = Inr (Some res) \<Longrightarrow>
     \<exists>chosen. res = cur @ chosen \<and> subseq chosen ws \<and> exact_cover m chosen \<and> chosen \<noteq> []"
proof (induction lower words cur m and lower ws cur m rule: find_full_match_full_match_loop.induct)
  case (1 lower words cur m)
  note o = "1.prems"(1) and k = "1.prems"(2) and e = "1.prems"(3)
  show ?case
  proof (cases "m = [] \<and> cur \<noteq> []")
    case True
    with e have "res = cur @ []" "exact_cover m []" "res \<noteq> []"
      by (simp_all add: exact_cover_def letters_in_Nil getitem_Nil)
    then show ?thesis by (metis list_emb_Nil)
  next
    case False
    show ?thesis
    proof (cases "words = []")
      case True
      with False e show ?thesis by (auto split: if_splits)
    next
      case ne: False
      with False e have "full_match_loop lower words cur m = Inr (Some res)"
        by (auto split: if_splits)
      from "1.IH" [OF False ne o k this] show ?thesis by auto
    qed
  qed
next
  case (2 lower cur m)
  then show ?case by simp
next
  case (3 lower word rest cur m)
  note o = "3.prems"(1) and k = "3.prems"(2) and e = "3.prems"(3)
  obtain m' where m': "subtract_letters lower m word = Inr m'"
    using subtract_letters_Inr by blast
  show ?case
  proof (cases "list_all (\<lambda>c. getitem (Counter word) c \<le> getitem m c) (keys (Counter word))")
    case False
    with e have "full_match_loop lower rest cur m = Inr (Some res)" by simp
    from "3.IH"(3) [OF refl False o k this] show ?thesis by auto
  next
    case True
    obtain result where r: "find_full_match lower rest (cur @ [word]) m' = Inr result"
      using find_full_match_no_error(1) by blast
    show ?thesis
    proof (cases "truthy result")
      case t: True
      with e True m' r have "find_full_match lower rest (cur @ [word]) m' = Inr (Some res)"
        by (simp del: find_full_match.simps)
      from "3.IH"(1) [OF refl True m' o k this] obtain chosen where
        c: "res = (cur @ [word]) @ chosen" "subseq chosen rest" "exact_cover m' chosen"
        by blast
      have "lowercase_keys lower m"
        using o e by (rule full_match_lowercase_keys(2))
      from covered_subtract_exact [OF True this k m'] c(3)
      have "exact_cover m (word # chosen)"
        by (simp add: exact_cover_def letters_in_Cons)
      with c(1,2) have "res = cur @ (word # chosen) \<and> subseq (word # chosen) (word # rest) \<and>
          exact_cover m (word # chosen) \<and> word # chosen \<noteq> []"
        by simp
      then show ?thesis by blast
    next
      case f: False
      with e True m' r have "full_match_loop lower rest cur m = Inr (Some res)"
        by (simp del: find_full_match.simps)
      from "3.IH"(2) [OF refl True m' r f o k this] show ?thesis by auto
    qed
  qed
qed

text \<open>
  C5. When the search of the full-match mode returns words, there is at least one;
  they are words of the sorted candidate list, each position used at most once and in
  the order of the list; and every character occurs in them, counted over all of them,
  exactly as often as the given multiset counts it, so that nothing is left. The
  sentence is then built from these words. This holds for every Counter, and for a
  \<open>lower\<close> with the two properties of \<open>str.lower\<close>.
\<close>

theorem full_match_exact:
  assumes "lower_output_fixed lower" and "lower_keeps_fixed lower"
    and "find_full_match lower (available_words anagrams) [] remaining = Inr (Some ws)"
  shows "ws \<noteq> [] \<and> subseq ws (available_words anagrams) \<and>
         (\<forall>c. letters_in ws c = getitem remaining c) \<and>
         (anagrams \<noteq> [] \<longrightarrow>
            generate_sentence lower capitalize anagrams remaining True
              = Inr (construct_sentence capitalize ws))"
proof -
  from full_match_sound(1) [OF assms]
  have "ws \<noteq> []" "subseq ws (available_words anagrams)" "exact_cover remaining ws"
    by simp_all
  moreover have "generate_sentence lower capitalize anagrams remaining True
      = Inr (construct_sentence capitalize ws)"
    if "anagrams \<noteq> []"
    using that assms(3) \<open>ws \<noteq> []\<close>
    by (simp add: generate_sentence_def Let_def del: find_full_match.simps)
  ultimately show ?thesis
    by (simp add: exact_cover_def)
qed

theorem full_match_exact_witness:
  "find_full_match ascii_lower (available_words [''o'', ''x'', ''ox'', ''xo'', ''oo'']) []
     (Counter ''oxox'') = Inr (Some [''ox'', ''xo'']) \<and>
   subseq [''ox'', ''xo''] (available_words [''o'', ''x'', ''ox'', ''xo'', ''oo'']) \<and>
   letters_in [''ox'', ''xo''] (CHR ''o'') = getitem (Counter ''oxox'') (CHR ''o'') \<and>
   generate_sentence ascii_lower ascii_capitalize [''o'', ''x'', ''ox'', ''xo'', ''oo'']
     (Counter ''oxox'') True = Inr (construct_sentence ascii_capitalize [''ox'', ''xo''])"
proof -
  have f: "find_full_match ascii_lower (available_words [''o'', ''x'', ''ox'', ''xo'', ''oo'']) []
             (Counter ''oxox'') = Inr (Some [''ox'', ''xo''])"
    by code_simp
  show ?thesis
    using full_match_exact [OF ascii_lower_output_fixed ascii_lower_keeps_fixed f,
        of ascii_capitalize] f
    by simp
qed

text \<open>
  C6, as the code has it. With an empty list of matched words \<open>generate_sentence\<close>
  returns \<open>No sentence possible.\<close> before it looks at the mode. With a list that is not
  empty, when no words of the sorted candidate list, taken in the order of the list, use
  up the multiset exactly, the result of the full-match mode is
  \<open>No full-match sentence possible.\<close> The second part is for a \<open>lower\<close> with the two
  properties of \<open>str.lower\<close>.
\<close>

theorem no_full_match_sentinel:
  "(anagrams = [] \<longrightarrow>
      generate_sentence lower capitalize anagrams remaining full_match
        = Inr ''No sentence possible.'') \<and>
   (lower_output_fixed lower \<and> lower_keeps_fixed lower \<and> anagrams \<noteq> [] \<and>
    (\<forall>ws. ws \<noteq> [] \<and> subseq ws (available_words anagrams) \<longrightarrow> \<not> exact_cover remaining ws) \<longrightarrow>
      generate_sentence lower capitalize anagrams remaining True
        = Inr ''No full-match sentence possible.'')"
proof -
  have "generate_sentence lower capitalize anagrams remaining True
      = Inr ''No full-match sentence possible.''"
    if o: "lower_output_fixed lower" and k: "lower_keeps_fixed lower"
      and ne: "anagrams \<noteq> []"
      and no: "\<forall>ws. ws \<noteq> [] \<and> subseq ws (available_words anagrams) \<longrightarrow>
                 \<not> exact_cover remaining ws"
  proof -
    obtain result
      where r: "find_full_match lower (available_words anagrams) [] remaining = Inr result"
      using find_full_match_no_error(1) by blast
    have "\<not> truthy result"
    proof (cases result)
      case None
      then show ?thesis by simp
    next
      case (Some ws)
      with r have "find_full_match lower (available_words anagrams) [] remaining
          = Inr (Some ws)" by simp
      from full_match_sound(1) [OF o k this] no show ?thesis by auto
    qed
    with ne r show ?thesis
      by (simp add: generate_sentence_def Let_def del: find_full_match.simps)
  qed
  then show ?thesis
    by (simp add: generate_sentence_def)
qed

lemma exact_cover_ox:
  "exact_cover m ws \<Longrightarrow>
   letters_in ws (CHR ''o'') = getitem m (CHR ''o'') \<and>
   letters_in ws (CHR ''x'') = getitem m (CHR ''x'')"
  by (simp add: exact_cover_def)

theorem no_full_match_sentinel_witness:
  "[''x'', ''xo'', ''oo''] \<noteq> [] \<and>
   available_words [''x'', ''xo'', ''oo''] = [''xo'', ''oo'', ''x''] \<and>
   generate_sentence ascii_lower ascii_capitalize [''x'', ''xo'', ''oo''] (Counter ''oxox'') True
     = Inr ''No full-match sentence possible.''"
proof -
  have a: "available_words [''x'', ''xo'', ''oo''] = [''xo'', ''oo'', ''x'']"
    by code_simp
  have g: "getitem (Counter ''oxox'') (CHR ''o'') = 2" "getitem (Counter ''oxox'') (CHR ''x'') = 2"
    by code_simp+
  have no: "\<forall>ws. ws \<noteq> [] \<and> subseq ws (available_words [''x'', ''xo'', ''oo'']) \<longrightarrow>
      \<not> exact_cover (Counter ''oxox'') ws"
  proof (intro allI impI notI)
    fix ws
    assume h: "ws \<noteq> [] \<and> subseq ws (available_words [''x'', ''xo'', ''oo''])"
      and e: "exact_cover (Counter ''oxox'') ws"
    have s: "subseqs [''xo'', ''oo'', ''x''] =
        [[''xo'', ''oo'', ''x''], [''xo'', ''oo''], [''xo'', ''x''], [''xo''],
         [''oo'', ''x''], [''oo''], [''x''], []]"
      by (simp add: Let_def)
    from h have "ws \<in> set (subseqs [''xo'', ''oo'', ''x''])"
      by (simp only: in_set_subseqs a)
    then have "ws \<in> {[''xo'', ''oo'', ''x''], [''xo'', ''oo''], [''xo'', ''x''], [''xo''],
         [''oo'', ''x''], [''oo''], [''x'']}"
      using h unfolding s by auto
    with exact_cover_ox [OF e] show False
      unfolding g by (auto simp: letters_in_def)
  qed
  with no_full_match_sentinel [of "[''x'', ''xo'', ''oo'']" ascii_lower ascii_capitalize
      "Counter ''oxox''" True]
    ascii_lower_output_fixed ascii_lower_keeps_fixed a
  show ?thesis
    by simp
qed

text \<open>
  With no matched words, the result in the full-match mode is the other text.
\<close>

theorem no_words_other_sentinel:
  "available_words [] = [] \<and>
   generate_sentence ascii_lower ascii_capitalize [] (Counter ''ox'') True = Inr ''No sentence possible.'' \<and>
   generate_sentence ascii_lower ascii_capitalize [] (Counter ''ox'') True \<noteq> Inr ''No full-match sentence possible.''"
  by code_simp

section \<open>The greedy scan of the partial mode\<close>

lemma letters_in_snoc: "letters_in (ws @ [w]) c = letters_in ws c + int (count_list w c)"
  by (simp add: letters_in_def)

lemma letters_in_absent: "c \<notin> set (concat ws) \<Longrightarrow> letters_in ws c = 0"
  by (induction ws) (simp_all add: letters_in_def)

lemma letters_in_nonneg: "0 \<le> letters_in ws c"
  by (induction ws) (simp_all add: letters_in_def)

lemma getitem_fold_add:
  "distinct (map fst ps) \<Longrightarrow>
   getitem (fold (\<lambda>(c, n) m. AList.update c (n + getitem m c) m) ps m) c
     = getitem m c + getitem ps c"
proof (induction ps arbitrary: m)
  case Nil
  show ?case by (simp add: getitem_Nil)
next
  case (Cons p ps)
  obtain k n where p: "p = (k, n)" by (cases p)
  from Cons.prems p have "k \<notin> set (keys ps)" and d: "distinct (map fst ps)"
    by (simp_all add: keys_def)
  then have "getitem ps k = 0" by (simp add: getitem_absent)
  moreover have "getitem (p # ps) c = (if c = k then n else getitem ps c)"
    by (simp add: p getitem_def)
  ultimately show ?case
    using Cons.IH [OF d] by (simp add: p getitem_update)
qed

lemma getitem_counter_update:
  "getitem (counter_update used (Counter w)) c = getitem used c + int (count_list w c)"
  using getitem_fold_add [of "Counter w" used c] distinct_keys_Counter [of w]
  by (simp add: counter_update_def keys_def getitem_Counter)

lemma accept_iff_fits:
  assumes "\<forall>c. getitem used c = letters_in sw c"
  shows "list_all (\<lambda>c. getitem used c + getitem (Counter w) c \<le> getitem rem c) (keys (Counter w))
           \<longleftrightarrow> fits rem sw w"
  using assms by (simp add: fits_def list_all_iff keys_Counter getitem_Counter)

lemma partial_loop_step:
  assumes "\<forall>c. getitem used c = letters_in sw c"
  shows "partial_loop (w # rest) sw used rem =
     (if fits rem sw w then
        (if 3 \<le> length sw + 1 then sw @ [w]
         else partial_loop rest (sw @ [w]) (counter_update used (Counter w)) rem)
      else (if 3 \<le> length sw then sw else partial_loop rest sw used rem))"
  using accept_iff_fits [OF assms, of w rem] by (simp add: Let_def)

lemma used_step:
  assumes "\<forall>c. getitem used c = letters_in sw c"
  shows "\<forall>c. getitem (counter_update used (Counter w)) c = letters_in (sw @ [w]) c"
  using assms by (simp add: getitem_counter_update letters_in_snoc)

lemma partial_loop_length:
  "\<forall>c. getitem used c = letters_in sw c \<Longrightarrow> length sw < 3 \<Longrightarrow>
   length (partial_loop ws sw used rem) \<le> 3"
proof (induction ws arbitrary: sw used)
  case Nil
  then show ?case by simp
next
  case (Cons w ws)
  from Cons.IH [OF used_step [OF Cons.prems(1), of w]] Cons.IH [OF Cons.prems(1)] Cons.prems(2)
  show ?case
    unfolding partial_loop_step [OF Cons.prems(1)] by auto
qed

lemma partial_loop_cases:
  assumes "\<forall>c. getitem used c = letters_in sw c"
  obtains (stop) "fits rem sw w" and "partial_loop (w # ws) sw used rem = sw @ [w]"
    | (halt) "partial_loop (w # ws) sw used rem = sw"
    | (take) "fits rem sw w" and "length (sw @ [w]) < 3"
        and "partial_loop (w # ws) sw used rem
               = partial_loop ws (sw @ [w]) (counter_update used (Counter w)) rem"
    | (skip) "\<not> fits rem sw w"
        and "partial_loop (w # ws) sw used rem = partial_loop ws sw used rem"
proof (cases "fits rem sw w")
  case True
  show ?thesis
  proof (cases "3 \<le> length sw + 1")
    case t: True
    with True stop show ?thesis
      by (simp add: partial_loop_step [OF assms] del: partial_loop.simps)
  next
    case f: False
    with True take show ?thesis
      by (simp add: partial_loop_step [OF assms] del: partial_loop.simps)
  qed
next
  case False
  show ?thesis
  proof (cases "3 \<le> length sw")
    case t: True
    with False halt show ?thesis
      by (simp add: partial_loop_step [OF assms] del: partial_loop.simps)
  next
    case f: False
    with False skip show ?thesis
      by (simp add: partial_loop_step [OF assms] del: partial_loop.simps)
  qed
qed

lemma partial_loop_subseq:
  "\<forall>c. getitem used c = letters_in sw c \<Longrightarrow>
   \<exists>chosen. partial_loop ws sw used rem = sw @ chosen \<and> subseq chosen ws"
proof (induction ws arbitrary: sw used)
  case Nil
  then show ?case by simp
next
  case (Cons w ws)
  from Cons.prems show ?case
  proof (cases rule: partial_loop_cases [where w = w and ws = ws and rem = rem])
    case stop
    then have "partial_loop (w # ws) sw used rem = sw @ [w] \<and> subseq [w] (w # ws)"
      by (simp del: partial_loop.simps)
    then show ?thesis by blast
  next
    case halt
    then have "partial_loop (w # ws) sw used rem = sw @ [] \<and> subseq [] (w # ws)"
      by (simp del: partial_loop.simps)
    then show ?thesis by blast
  next
    case take
    from Cons.IH [OF used_step [OF Cons.prems, of w]] obtain chosen where
      "partial_loop ws (sw @ [w]) (counter_update used (Counter w)) rem = (sw @ [w]) @ chosen"
      "subseq chosen ws" by blast
    with take have "partial_loop (w # ws) sw used rem = sw @ (w # chosen) \<and>
        subseq (w # chosen) (w # ws)" by (simp del: partial_loop.simps)
    then show ?thesis by blast
  next
    case skip
    from Cons.IH [OF Cons.prems] obtain chosen where
      "partial_loop ws sw used rem = sw @ chosen" "subseq chosen ws" by blast
    with skip have "partial_loop (w # ws) sw used rem = sw @ chosen \<and> subseq chosen (w # ws)"
      by (simp add: list_emb_Cons del: partial_loop.simps)
    then show ?thesis by blast
  qed
qed

lemma fits_bound:
  assumes f: "fits rem sw w"
    and b: "\<forall>c \<in> set (concat sw). letters_in sw c \<le> getitem rem c"
  shows "\<forall>c \<in> set (concat (sw @ [w])). letters_in (sw @ [w]) c \<le> getitem rem c"
proof
  fix c assume c: "c \<in> set (concat (sw @ [w]))"
  show "letters_in (sw @ [w]) c \<le> getitem rem c"
  proof (cases "c \<in> set w")
    case True
    with f show ?thesis by (simp add: fits_def list_all_iff letters_in_snoc)
  next
    case False
    with c have "c \<in> set (concat sw)" by auto
    with b have "letters_in sw c \<le> getitem rem c" by blast
    with False show ?thesis by (simp add: letters_in_snoc)
  qed
qed

lemma partial_loop_bound:
  "\<forall>c. getitem used c = letters_in sw c \<Longrightarrow>
   \<forall>c \<in> set (concat sw). letters_in sw c \<le> getitem rem c \<Longrightarrow>
   \<forall>c \<in> set (concat (partial_loop ws sw used rem)).
      letters_in (partial_loop ws sw used rem) c \<le> getitem rem c"
proof (induction ws arbitrary: sw used)
  case Nil
  then show ?case by simp
next
  case (Cons w ws)
  from Cons.prems(1) show ?case
  proof (cases rule: partial_loop_cases [where w = w and ws = ws and rem = rem])
    case stop
    from fits_bound [OF stop(1) Cons.prems(2)] show ?thesis
      unfolding stop(2) .
  next
    case halt
    from Cons.prems(2) show ?thesis
      unfolding halt .
  next
    case take
    from Cons.IH [OF used_step [OF Cons.prems(1), of w] fits_bound [OF take(1) Cons.prems(2)]]
    show ?thesis
      unfolding take(3) .
  next
    case skip
    from Cons.IH [OF Cons.prems] show ?thesis
      unfolding skip(2) .
  qed
qed

lemma partial_loop_snoc:
  "\<forall>c. getitem used c = letters_in sw c \<Longrightarrow> length sw < 3 \<Longrightarrow>
   partial_loop (pre @ [w]) sw used rem =
     (if length (partial_loop pre sw used rem) < 3 \<and> fits rem (partial_loop pre sw used rem) w
      then partial_loop pre sw used rem @ [w] else partial_loop pre sw used rem)"
proof (induction pre arbitrary: sw used)
  case Nil
  then show ?case
    using partial_loop_step [OF Nil(1), of w "[]" rem] by simp
next
  case (Cons p ps)
  note u = used_step [OF Cons.prems(1), of p]
  show ?case
  proof (cases "fits rem sw p")
    case False
    with Cons.IH [OF Cons.prems] Cons.prems(2) show ?thesis
      using partial_loop_step [OF Cons.prems(1), of p "ps @ [w]" rem]
        partial_loop_step [OF Cons.prems(1), of p ps rem]
      by (simp del: partial_loop.simps)
  next
    case True
    show ?thesis
    proof (cases "3 \<le> length sw + 1")
      case stop: True
      with True show ?thesis
        using partial_loop_step [OF Cons.prems(1), of p "ps @ [w]" rem]
          partial_loop_step [OF Cons.prems(1), of p ps rem]
        by (simp del: partial_loop.simps)
    next
      case go: False
      then have "length (sw @ [p]) < 3" by simp
      from Cons.IH [OF u this] True go show ?thesis
        using partial_loop_step [OF Cons.prems(1), of p "ps @ [w]" rem]
          partial_loop_step [OF Cons.prems(1), of p ps rem]
        by (simp del: partial_loop.simps)
    qed
  qed
qed

text \<open>
  C8. In the partial mode the candidates are scanned in descending order of length,
  words of the same length in the order they came in. Scanning one more word \<open>w\<close> after
  the words \<open>pre\<close> accepts \<open>w\<close> exactly when fewer than three words are accepted so far
  and \<open>w\<close> fits beside them: for every character of \<open>w\<close>, the letters used by the
  accepted words plus those of \<open>w\<close> stay within the count of the remaining multiset. So
  at most three words are accepted, they are candidates in the order of the scan, and no
  character is used more often than the remaining multiset has it. The sentence is built
  from the accepted words, and with none accepted the result is \<open>No sentence possible.\<close>
\<close>

theorem partial_sentence_greedy:
  "sorted_wrt (\<lambda>v w. length w \<le> length v) (available_words anagrams) \<and>
   (\<forall>k. filter (\<lambda>w. length w = k) (available_words anagrams)
          = filter (\<lambda>w. length w = k) anagrams) \<and>
   partial_loop [] [] [] remaining = [] \<and>
   (\<forall>pre w. partial_loop (pre @ [w]) [] [] remaining =
      (if length (partial_loop pre [] [] remaining) < 3 \<and>
          fits remaining (partial_loop pre [] [] remaining) w
       then partial_loop pre [] [] remaining @ [w]
       else partial_loop pre [] [] remaining)) \<and>
   length (partial_loop (available_words anagrams) [] [] remaining) \<le> 3 \<and>
   subseq (partial_loop (available_words anagrams) [] [] remaining) (available_words anagrams) \<and>
   (\<forall>c. c \<in> set (concat (partial_loop (available_words anagrams) [] [] remaining)) \<or>
        0 \<le> getitem remaining c \<longrightarrow>
        letters_in (partial_loop (available_words anagrams) [] [] remaining) c
          \<le> getitem remaining c) \<and>
   generate_sentence lower capitalize anagrams remaining False
     = Inr (construct_sentence capitalize (partial_loop (available_words anagrams) [] [] remaining)) \<and>
   (partial_loop (available_words anagrams) [] [] remaining = [] \<longrightarrow>
      generate_sentence lower capitalize anagrams remaining False = Inr ''No sentence possible.'')"
proof -
  let ?aw = "available_words anagrams"
  let ?sel = "partial_loop ?aw [] [] remaining"
  have u: "\<forall>c. getitem [] c = letters_in [] c"
    by (simp add: getitem_Nil letters_in_def)
  have "sorted (map (\<lambda>w. - int (length w)) ?aw)"
    unfolding available_words_def by (rule sorted_sort_key)
  then have a: "sorted_wrt (\<lambda>v w. length w \<le> length v) ?aw"
    by (simp add: sorted_map)
  have b: "filter (\<lambda>w. length w = k) ?aw = filter (\<lambda>w. length w = k) anagrams" for k
    using sort_key_stable [of "\<lambda>w. - int (length w)" "- int k" anagrams]
    by (simp add: available_words_def)
  have c: "partial_loop (pre @ [w]) [] [] remaining =
      (if length (partial_loop pre [] [] remaining) < 3 \<and>
          fits remaining (partial_loop pre [] [] remaining) w
       then partial_loop pre [] [] remaining @ [w]
       else partial_loop pre [] [] remaining)" for pre w
    using partial_loop_snoc [OF u, of pre w remaining] by simp
  have d: "length ?sel \<le> 3"
    using partial_loop_length [OF u, of ?aw remaining] by simp
  have e: "subseq ?sel ?aw"
    using partial_loop_subseq [OF u, of ?aw remaining] by simp
  have "\<forall>c \<in> set (concat ?sel). letters_in ?sel c \<le> getitem remaining c"
    by (rule partial_loop_bound [OF u]) simp
  then have f: "letters_in ?sel c \<le> getitem remaining c"
    if "c \<in> set (concat ?sel) \<or> 0 \<le> getitem remaining c" for c
    using that letters_in_absent [of c ?sel] by (cases "c \<in> set (concat ?sel)") auto
  have g: "generate_sentence lower capitalize anagrams remaining False = Inr (construct_sentence capitalize ?sel)"
  proof (cases "anagrams = []")
    case True
    then show ?thesis
      by (simp add: generate_sentence_def available_words_def construct_sentence_def)
  next
    case False
    then show ?thesis
      by (simp add: generate_sentence_def)
  qed
  have h: "generate_sentence lower capitalize anagrams remaining False = Inr ''No sentence possible.''"
    if "?sel = []"
    unfolding g that by (simp add: construct_sentence_def)
  have z: "partial_loop [] [] [] remaining = []"
    by simp
  show ?thesis
    by (intro conjI allI impI a b c d e f g h z) assumption+
qed

theorem partial_sentence_greedy_witness:
  "partial_loop ([''ox''] @ [''xo'']) [] [] (Counter ''oxoxoxox'') = [''ox'', ''xo''] \<and>
   length (partial_loop [''ox''] [] [] (Counter ''oxoxoxox'')) < 3 \<and>
   fits (Counter ''oxoxoxox'') (partial_loop [''ox''] [] [] (Counter ''oxoxoxox'')) ''xo'' \<and>
   partial_loop (available_words [''o'', ''x'', ''ox'', ''xo'', ''oo'']) [] [] (Counter ''oxoxoxox'')
     = [''ox'', ''xo'', ''oo''] \<and>
   CHR ''o'' \<in> set (concat [''ox'', ''xo'', ''oo'']) \<and>
   letters_in [''ox'', ''xo'', ''oo''] (CHR ''o'') \<le> getitem (Counter ''oxoxoxox'') (CHR ''o'') \<and>
   generate_sentence ascii_lower ascii_capitalize [''o'', ''x'', ''ox'', ''xo'', ''oo''] (Counter ''oxoxoxox'') False
     = Inr ''Ox xo oo.'' \<and>
   partial_loop (available_words [''a'']) [] [] (Counter ''ox'') = [] \<and>
   generate_sentence ascii_lower ascii_capitalize [''a''] (Counter ''ox'') False = Inr ''No sentence possible.''"
proof -
  let ?A = "[''o'', ''x'', ''ox'', ''xo'', ''oo'']"
  let ?R = "Counter ''oxoxoxox''"
  have p: "partial_loop [''ox''] [] [] ?R = [''ox'']"
    by code_simp
  have f: "fits ?R [''ox''] ''xo''"
    by code_simp
  have s: "partial_loop (available_words ?A) [] [] ?R = [''ox'', ''xo'', ''oo'']"
    by code_simp
  have c: "construct_sentence ascii_capitalize [''ox'', ''xo'', ''oo''] = ''Ox xo oo.''"
    by code_simp
  have n: "partial_loop (available_words [''a'']) [] [] (Counter ''ox'') = []"
    by code_simp
  have o: "CHR ''o'' \<in> set (concat [''ox'', ''xo'', ''oo''])"
    by simp
  note t = partial_sentence_greedy [of ?A ?R ascii_lower ascii_capitalize]
  from t have "partial_loop ([''ox''] @ [''xo'']) [] [] ?R =
      (if length (partial_loop [''ox''] [] [] ?R) < 3 \<and>
          fits ?R (partial_loop [''ox''] [] [] ?R) ''xo''
       then partial_loop [''ox''] [] [] ?R @ [''xo'']
       else partial_loop [''ox''] [] [] ?R)"
    by blast
  with f have 1: "partial_loop ([''ox''] @ [''xo'']) [] [] ?R = [''ox'', ''xo'']"
    unfolding p by simp
  from t o have 2: "letters_in [''ox'', ''xo'', ''oo''] (CHR ''o'') \<le> getitem ?R (CHR ''o'')"
    unfolding s by blast
  from t have 3: "generate_sentence ascii_lower ascii_capitalize ?A ?R False = Inr ''Ox xo oo.''"
    unfolding s c by blast
  from partial_sentence_greedy [of "[''a'']" "Counter ''ox''" ascii_lower ascii_capitalize] n
  have 4: "generate_sentence ascii_lower ascii_capitalize [''a''] (Counter ''ox'') False = Inr ''No sentence possible.''"
    by blast
  from 1 2 3 4 f s n o show ?thesis
    unfolding p by simp
qed

end
